theory Spec2Isabelle
  imports Main "HOL-Library.Char_ord" "HOL-Library.List_Lexorder" "HOL-Library.Multiset"
begin

section \<open>Strings\<close>

text \<open>
  A Python \<open>str\<close> is modelled as a \<open>string\<close>, the list of the bytes of its UTF-8
  encoding. Every address the detection pattern matches is pure ASCII, so on addresses
  \<open>len\<close>, \<open>lower\<close>, \<open>split\<close>, \<open>in\<close> and the comparison of \<open>sort\<close> agree with the
  byte-wise functions below. A non-ASCII code point of the pasted text is a run of bytes
  above 127, none of which is in a character class of the pattern, as the code point
  itself is in none.
\<close>

definition is_letter :: "char \<Rightarrow> bool" where
  "is_letter c \<longleftrightarrow> (CHR ''a'' \<le> c \<and> c \<le> CHR ''z'') \<or> (CHR ''A'' \<le> c \<and> c \<le> CHR ''Z'')"

definition is_digit :: "char \<Rightarrow> bool" where
  "is_digit c \<longleftrightarrow> CHR ''0'' \<le> c \<and> c \<le> CHR ''9''"

text \<open>The class \<open>[a-zA-Z0-9._%+-]\<close> of the local part.\<close>

definition local_char :: "char \<Rightarrow> bool" where
  "local_char c \<longleftrightarrow> is_letter c \<or> is_digit c \<or> c \<in> set ''._%+-''"

text \<open>The class \<open>[a-zA-Z0-9.-]\<close> of the domain part.\<close>

definition domain_char :: "char \<Rightarrow> bool" where
  "domain_char c \<longleftrightarrow> is_letter c \<or> is_digit c \<or> c \<in> set ''.-''"

text \<open>\<open>str.lower\<close> on ASCII: the letters A-Z move up by 32, every other byte stays.\<close>

definition lower_char :: "char \<Rightarrow> char" where
  "lower_char c = (if CHR ''A'' \<le> c \<and> c \<le> CHR ''Z'' then char_of (of_char c + (32::nat)) else c)"

definition lower :: "string \<Rightarrow> string" where
  "lower s = map lower_char s"

text \<open>\<open>s.split(sep)\<close> for a one-character separator: never empty, one more part than
  there are separators.\<close>

fun split :: "char \<Rightarrow> string \<Rightarrow> string list" where
  "split sep [] = [[]]"
| "split sep (c # cs) =
     (if c = sep then [] # split sep cs
      else (case split sep cs of [] \<Rightarrow> [[c]] | p # ps \<Rightarrow> (c # p) # ps))"

text \<open>\<open>k in s\<close> on strings: \<open>k\<close> occurs in \<open>s\<close> as a contiguous substring.\<close>

fun starts_with :: "string \<Rightarrow> string \<Rightarrow> bool" where
  "starts_with [] s = True"
| "starts_with (k # ks) [] = False"
| "starts_with (k # ks) (c # cs) = (k = c \<and> starts_with ks cs)"

fun contains :: "string \<Rightarrow> string \<Rightarrow> bool" where
  "contains k [] = (k = [])"
| "contains k (c # cs) = (starts_with k (c # cs) \<or> contains k cs)"

text \<open>\<open>xs[i]\<close> for an index \<open>i \<ge> 0\<close>; out of range raises \<open>IndexError\<close>.\<close>

datatype error = IndexError

definition index :: "'a list \<Rightarrow> nat \<Rightarrow> error + 'a" where
  "index xs i = (if i < length xs then Inr (xs ! i) else Inl IndexError)"

text \<open>\<open>xs[:n]\<close>: the first \<open>n\<close> entries for \<open>n \<ge> 0\<close>, all but the last \<open>-n\<close>
  entries for \<open>n < 0\<close>.\<close>

definition slice_to :: "int \<Rightarrow> 'a list \<Rightarrow> 'a list" where
  "slice_to n xs = (if 0 \<le> n then take (nat n) xs else take (length xs - nat (- n)) xs)"

section \<open>Detector\<close>

text \<open>
  \<open>re.findall(r'[a-zA-Z0-9._%+-]+@[a-zA-Z0-9.-]+\.[a-zA-Z]{2,}', raw_text)\<close>
  (\<open>streamlit_app.py\<close>, lines 85 and 86).

  \<open>match_tld\<close> is the tail \<open>\.[a-zA-Z]{2,}\<close> of the pattern at the start of a string:
  a dot and the longest run of letters after it, which must have two letters at least.
  Nothing follows it in the pattern, so the greedy run is never given back.
\<close>

definition match_tld :: "string \<Rightarrow> string option" where
  "match_tld s =
     (case s of
        [] \<Rightarrow> None
      | c # r \<Rightarrow>
          if c = CHR ''.'' then
            (let t = takeWhile is_letter r in if 2 \<le> length t then Some (c # t) else None)
          else None)"

text \<open>
  \<open>match_domain m s\<close> is \<open>[a-zA-Z0-9.-]+\.[a-zA-Z]{2,}\<close> at the start of \<open>s\<close>, where
  the first \<open>m\<close> characters of \<open>s\<close> are the greedy run of the class: the run is tried at
  its full length first and then given back one character at a time, down to one
  character, until the tail matches behind it.
\<close>

fun match_domain :: "nat \<Rightarrow> string \<Rightarrow> string option" where
  "match_domain 0 s = None"
| "match_domain (Suc m) s =
     (case match_tld (drop (Suc m) s) of
        Some t \<Rightarrow> Some (take (Suc m) s @ t)
      | None \<Rightarrow> match_domain m s)"

text \<open>
  The whole pattern at the start of \<open>s\<close>. The local part is the longest run of its
  class: a shorter run is followed by a character of the class, not by \<open>@\<close>, so giving
  characters back never helps.
\<close>

definition match_email :: "string \<Rightarrow> string option" where
  "match_email s =
     (let loc = takeWhile local_char s in
      if loc = [] then None
      else (case dropWhile local_char s of
              [] \<Rightarrow> None
            | c # r \<Rightarrow>
                if c = CHR ''@'' then
                  (case match_domain (length (takeWhile domain_char r)) r of
                     None \<Rightarrow> None
                   | Some d \<Rightarrow> Some (loc @ c # d))
                else None))"

text \<open>The scan: non-overlapping matches from left to right; after a match the scan goes on
  behind it, after a failure one character further.\<close>

function findall :: "string \<Rightarrow> string list" where
  "findall [] = []"
| "findall (c # cs) =
     (case match_email (c # cs) of
        Some m \<Rightarrow> m # findall (drop (length m) (c # cs))
      | None \<Rightarrow> findall cs)"
  by pat_completeness auto
termination
proof (relation "measure length")
  show "wf (measure length)" by simp
next
  fix c :: char and cs m
  assume "match_email (c # cs) = Some m"
  then have "m \<noteq> []"
    by (auto simp: match_email_def Let_def split: if_splits list.splits option.splits)
  then have "0 < length m" by simp
  then show "(drop (length m) (c # cs), c # cs) \<in> measure length" by simp
next
  fix c :: char and cs
  show "(cs, c # cs) \<in> measure length" by simp
qed

section \<open>Deduplicator\<close>

text \<open>The loop over \<open>found_emails\<close> (lines 88 to 94), on the pair of \<open>seen\<close> and
  \<open>unique_emails\<close>.\<close>

definition dedup_step :: "string set \<times> string list \<Rightarrow> string \<Rightarrow> string set \<times> string list" where
  "dedup_step st e =
     (let e_low = lower e in
      if e_low \<notin> fst st then (insert e_low (fst st), snd st @ [e_low]) else st)"

definition dedup :: "string list \<Rightarrow> string list" where
  "dedup found_emails = snd (foldl dedup_step ({}, []) found_emails)"

section \<open>Domain grouper\<close>

text \<open>Lines 97 to 106. \<open>domain_map\<close> is a \<open>defaultdict(list)\<close>: reading a missing key
  gives the empty list.\<close>

record groups =
  domain_map :: "string \<rightharpoonup> string list"
  domain_order :: "string list"

definition get_group :: "(string \<rightharpoonup> string list) \<Rightarrow> string \<Rightarrow> string list" where
  "get_group m d = (case m d of None \<Rightarrow> [] | Some es \<Rightarrow> es)"

text \<open>\<open>email.split('@')[1]\<close>, which raises \<open>IndexError\<close> when there is no \<open>@\<close>.\<close>

definition domain_of :: "string \<Rightarrow> error + string" where
  "domain_of email = index (split CHR ''@'' email) 1"

text \<open>One turn of the grouping loop; the \<open>except IndexError: continue\<close> leaves the
  state as it is.\<close>

definition group_step :: "groups \<Rightarrow> string \<Rightarrow> groups" where
  "group_step g email =
     (case domain_of email of
        Inl IndexError \<Rightarrow> g
      | Inr domain \<Rightarrow>
          \<lparr>domain_map = (domain_map g)(domain \<mapsto> get_group (domain_map g) domain @ [email]),
           domain_order =
             (if domain_map g domain = None then domain_order g @ [domain]
              else domain_order g)\<rparr>)"

definition group_emails :: "string list \<Rightarrow> groups" where
  "group_emails unique_emails =
     foldl group_step \<lparr>domain_map = Map.empty, domain_order = []\<rparr> unique_emails"

section \<open>Selector\<close>

text \<open>Lines 109 to 140. \<open>e.split('@')[0]\<close>: the first part always exists.\<close>

definition local_part :: "string \<Rightarrow> string" where
  "local_part e = (case split CHR ''@'' e of [] \<Rightarrow> [] | p # ps \<Rightarrow> p)"

text \<open>\<open>any(k in local_part for k in keywords)\<close>.\<close>

definition matches_keyword :: "string list \<Rightarrow> string \<Rightarrow> bool" where
  "matches_keyword keywords e = list_ex (\<lambda>k. contains k (local_part e)) keywords"

text \<open>The partition loop, on the pair of \<open>priority\<close> and \<open>others\<close>.\<close>

definition partition_step ::
  "string list \<Rightarrow> string list \<times> string list \<Rightarrow> string \<Rightarrow> string list \<times> string list" where
  "partition_step keywords po e =
     (if matches_keyword keywords e then (fst po @ [e], snd po) else (fst po, snd po @ [e]))"

definition partition_emails :: "string list \<Rightarrow> string list \<Rightarrow> string list \<times> string list" where
  "partition_emails keywords emails = foldl (partition_step keywords) ([], []) emails"

text \<open>\<open>priority.sort(key=len)\<close> is a stable sort on the length, \<open>others.sort()\<close> sorts
  by the order of strings, which compares character by character and puts a proper
  prefix first; \<open>top_selection\<close> is the slice
  \<open>(priority + others)[:max_per_domain]\<close>.\<close>

definition sorted_priority :: "string list \<Rightarrow> string list \<Rightarrow> string list" where
  "sorted_priority keywords emails = sort_key length (fst (partition_emails keywords emails))"

definition sorted_others :: "string list \<Rightarrow> string list \<Rightarrow> string list" where
  "sorted_others keywords emails = sort (snd (partition_emails keywords emails))"

definition top_selection :: "int \<Rightarrow> string list \<Rightarrow> string list \<Rightarrow> string list" where
  "top_selection max_per_domain keywords emails =
     slice_to max_per_domain (sorted_priority keywords emails @ sorted_others keywords emails)"

text \<open>The two labels of the \<open>Type\<close> column, as UTF-8: a dart emoji (U+1F3AF) before
  \<open>Match\<close>, an envelope (U+2709, U+FE0F) before \<open>General\<close>.\<close>

definition match_label :: string where
  "match_label = [CHR 0xF0, CHR 0x9F, CHR 0x8E, CHR 0xAF] @ '' Match''"

definition general_label :: string where
  "general_label = [CHR 0xE2, CHR 0x9C, CHR 0x89, CHR 0xEF, CHR 0xB8, CHR 0x8F] @ '' General''"

record row =
  Domain :: string
  Email :: string
  Type :: string

record selection =
  final_selection :: "row list"
  skipped_emails :: "string list"

definition select_row :: "string \<Rightarrow> string list \<Rightarrow> row list \<Rightarrow> string \<Rightarrow> row list" where
  "select_row domain priority acc s =
     acc @ [\<lparr>Domain = domain, Email = s,
             Type = (if s \<in> set priority then match_label else general_label)\<rparr>]"

definition skip_step :: "string set \<Rightarrow> string list \<Rightarrow> string \<Rightarrow> string list" where
  "skip_step top_set acc e = (if e \<notin> top_set then acc @ [e] else acc)"

text \<open>One turn of the loop over \<open>domain_order\<close>. The membership test of the
  \<open>Type\<close> column reads \<open>priority\<close> after it was sorted in place.\<close>

definition select_domain ::
  "int \<Rightarrow> string list \<Rightarrow> (string \<rightharpoonup> string list) \<Rightarrow> selection \<Rightarrow> string \<Rightarrow> selection" where
  "select_domain max_per_domain keywords dmap acc domain =
     (let emails = get_group dmap domain;
          priority = sorted_priority keywords emails;
          top_sel = top_selection max_per_domain keywords emails;
          top_set = set top_sel
      in \<lparr>final_selection = foldl (select_row domain priority) (final_selection acc) top_sel,
          skipped_emails = foldl (skip_step top_set) (skipped_emails acc) emails\<rparr>)"

definition select_all :: "int \<Rightarrow> string list \<Rightarrow> groups \<Rightarrow> selection" where
  "select_all max_per_domain keywords g =
     foldl (select_domain max_per_domain keywords (domain_map g))
       \<lparr>final_selection = [], skipped_emails = []\<rparr> (domain_order g)"

text \<open>Closed forms of the two inner loops of a turn of the selection: the rows the turn
  appends, and the addresses it skips.\<close>

definition domain_rows :: "int \<Rightarrow> string list \<Rightarrow> string list \<Rightarrow> string \<Rightarrow> row list" where
  "domain_rows max_per_domain keywords emails domain =
     map (\<lambda>s. \<lparr>Domain = domain, Email = s,
                Type = (if s \<in> set (sorted_priority keywords emails) then match_label
                        else general_label)\<rparr>)
       (top_selection max_per_domain keywords emails)"

definition domain_skips :: "int \<Rightarrow> string list \<Rightarrow> string list \<Rightarrow> string list" where
  "domain_skips max_per_domain keywords emails =
     filter (\<lambda>e. e \<notin> set (top_selection max_per_domain keywords emails)) emails"

section \<open>The extraction run\<close>

record extraction =
  unique_emails :: "string list"
  grouped :: groups
  selected :: "row list"
  skipped :: "string list"

text \<open>The run behind the detector (lines 88 to 140), on the detector's matches.\<close>

definition process :: "string list \<Rightarrow> int \<Rightarrow> string list \<Rightarrow> extraction" where
  "process found_emails max_per_domain keywords =
     (let unique = dedup found_emails;
          g = group_emails unique;
          sel = select_all max_per_domain keywords g
      in \<lparr>unique_emails = unique, grouped = g,
          selected = final_selection sel, skipped = skipped_emails sel\<rparr>)"

definition run_extraction :: "string \<Rightarrow> int \<Rightarrow> string list \<Rightarrow> extraction" where
  "run_extraction raw_text max_per_domain keywords =
     process (findall raw_text) max_per_domain keywords"

text \<open>The three counters shown above the result table (lines 147 to 149).\<close>

definition unique_total :: "extraction \<Rightarrow> nat" where
  "unique_total r = length (unique_emails r)"

definition selected_count :: "extraction \<Rightarrow> nat" where
  "selected_count r = length (selected r)"

definition skipped_count :: "extraction \<Rightarrow> nat" where
  "skipped_count r = length (skipped r)"

text \<open>
  What the page shows when the button is pressed (lines 80 to 83, 143 and 171): a
  warning when the text area is empty;
  otherwise the run is made, and the page shows the counters and the two tables when
  something was selected and the error notice when nothing was.
\<close>

datatype shown = Warning | Results extraction | Error

definition on_run_extraction :: "string \<Rightarrow> int \<Rightarrow> string list \<Rightarrow> shown" where
  "on_run_extraction raw_text max_per_domain keywords =
     (if raw_text = [] then Warning
      else (let r = run_extraction raw_text max_per_domain keywords
            in if selected r \<noteq> [] then Results r else Error))"

text \<open>The part of the output that belongs to one domain: the selected rows with that
  \<open>Domain\<close>, and the skipped addresses whose domain it is.\<close>

definition selected_for :: "string \<Rightarrow> extraction \<Rightarrow> string list" where
  "selected_for d r = map Email (filter (\<lambda>x. Domain x = d) (selected r))"

definition skipped_for :: "string \<Rightarrow> extraction \<Rightarrow> string list" where
  "skipped_for d r = filter (\<lambda>e. domain_of e = Inr d) (skipped r)"

definition group_of :: "string \<Rightarrow> extraction \<Rightarrow> string list" where
  "group_of d r = get_group (domain_map (grouped r)) d"

section \<open>The specification's wording\<close>

text \<open>The unique entries of a sequence in order of first appearance: every entry stays
  where it first occurs, and its later occurrences are dropped.\<close>

primrec first_seen :: "'a list \<Rightarrow> 'a list" where
  "first_seen [] = []"
| "first_seen (x # xs) = x # removeAll x (first_seen xs)"

text \<open>The domains of a sequence of addresses in its order, one for each address that
  has one.\<close>

definition domains :: "string list \<Rightarrow> string list" where
  "domains emails = concat (map (\<lambda>e. case domain_of e of Inl x \<Rightarrow> [] | Inr d \<Rightarrow> [d]) emails)"

text \<open>The nearest cap in the configured range from 1 to 200.\<close>

definition nearest_cap :: "int \<Rightarrow> int" where
  "nearest_cap n = max 1 (min 200 n)"

section \<open>Deduplicator: properties\<close>

lemma lower_char_idem: "lower_char (lower_char c) = lower_char c"
proof (cases "CHR ''A'' \<le> c \<and> c \<le> CHR ''Z''")
  case True
  then have b: "65 \<le> (of_char c :: nat)" "(of_char c :: nat) \<le> 90"
    by (simp_all add: less_eq_char_def)
  then have "(of_char (char_of (of_char c + (32::nat))) :: nat) = of_char c + 32"
    by simp
  then have "\<not> (char_of (of_char c + (32::nat)) \<le> CHR ''Z'')"
    using b by (simp add: less_eq_char_def)
  then show ?thesis using True by (simp add: lower_char_def)
next
  case False
  then have "lower_char c = c" unfolding lower_char_def by (rule if_not_P)
  then show ?thesis by simp
qed

lemma lower_idem: "lower (lower s) = lower s"
  by (simp add: lower_def lower_char_idem)

lemma dedup_fold_inv:
  "fst st = set (snd st) \<Longrightarrow> fst (foldl dedup_step st xs) = set (snd (foldl dedup_step st xs))"
  by (induction xs arbitrary: st) (auto simp: dedup_step_def Let_def)

lemma dedup_Nil: "dedup [] = []"
  by (simp add: dedup_def)

lemma dedup_snoc:
  "dedup (xs @ [x]) = (if lower x \<in> set (dedup xs) then dedup xs else dedup xs @ [lower x])"
proof -
  have "fst (foldl dedup_step ({}, []) xs) = set (snd (foldl dedup_step ({}, []) xs))"
    by (rule dedup_fold_inv) simp
  then show ?thesis
    by (simp add: dedup_def dedup_step_def Let_def)
qed

lemma set_first_seen: "set (first_seen xs) = set xs"
  by (induction xs) auto

lemma first_seen_snoc:
  "first_seen (xs @ [x]) = (if x \<in> set xs then first_seen xs else first_seen xs @ [x])"
  by (induction xs) (auto simp: set_first_seen)

lemma distinct_first_seen: "distinct (first_seen xs)"
  by (induction xs) (auto simp: distinct_removeAll)

lemma first_seen_distinct: "distinct xs \<Longrightarrow> first_seen xs = xs"
  by (induction xs) (auto simp: set_first_seen)

lemma dedup_first_seen: "dedup xs = first_seen (map lower xs)"
proof (induction xs rule: rev_induct)
  case Nil
  show ?case by (simp add: dedup_Nil)
next
  case (snoc x xs)
  then show ?case
    by (simp add: dedup_snoc first_seen_snoc set_first_seen)
qed

lemma distinct_dedup: "distinct (dedup xs)"
  by (simp add: dedup_first_seen distinct_first_seen)

lemma set_dedup: "set (dedup xs) = lower ` set xs"
  by (simp add: dedup_first_seen set_first_seen)

lemma map_lower_dedup: "map lower (dedup xs) = dedup xs"
proof -
  have "\<forall>e \<in> set (dedup xs). lower e = e"
    by (auto simp: set_dedup lower_idem)
  then show ?thesis by (simp add: map_idI)
qed

text \<open>
  Claim C3. The deduplicator returns the lower-cased matches, each once, in the order in
  which they first appear: its result is \<open>first_seen\<close> of the lower-cased input, it
  has no duplicates, its entries are the lower-cased forms of the input's and are
  lower-case themselves, a further match is dropped when its lower-cased form is already
  there and is appended in lower case otherwise, and two matches that are equal up to
  case leave the one lower-cased entry of the first.
\<close>

theorem dedup_first_appearance:
  "dedup found = first_seen (map lower found)
   \<and> distinct (dedup found)
   \<and> set (dedup found) = lower ` set found
   \<and> map lower (dedup found) = dedup found
   \<and> dedup (found @ [e]) =
       (if lower e \<in> set (dedup found) then dedup found else dedup found @ [lower e])
   \<and> dedup [lower a, a] = [lower a] \<and> dedup [a, lower a] = [lower a]"
proof -
  have "dedup [lower a, a] = [lower a]" "dedup [a, lower a] = [lower a]"
    by (simp_all add: dedup_first_seen lower_idem)
  then show ?thesis
    using dedup_first_seen distinct_dedup set_dedup map_lower_dedup dedup_snoc by blast
qed

theorem dedup_first_appearance_example:
  "dedup [''Foo@Bar.com'', ''x@y.org'', ''foo@bar.com'', ''X@Y.ORG'', ''FOO@bar.com''] =
     [''foo@bar.com'', ''x@y.org'']"
proof -
  have "first_seen (map lower [''Foo@Bar.com'', ''x@y.org'', ''foo@bar.com'', ''X@Y.ORG'', ''FOO@bar.com'']) =
          [''foo@bar.com'', ''x@y.org'']"
    by code_simp
  then show ?thesis
    by (simp only: dedup_first_appearance [THEN conjunct1])
qed

text \<open>
  Claim C8. Running the deduplicator on its own output changes nothing: for every
  sequence of matches, deduplicating the deduplicated sequence gives it back.
\<close>

theorem dedup_idempotent: "dedup (dedup xs) = dedup xs"
proof -
  have "dedup (dedup xs) = first_seen (map lower (dedup xs))"
    by (rule dedup_first_seen)
  also have "\<dots> = first_seen (dedup xs)" by (simp add: map_lower_dedup)
  also have "\<dots> = dedup xs" by (rule first_seen_distinct) (rule distinct_dedup)
  finally show ?thesis .
qed

section \<open>Domain grouper: properties\<close>

lemma length_split: "length (split sep s) = Suc (count_list s sep)"
  by (induction s) (auto split: list.splits)

lemma domain_of_Inl: "(domain_of e = Inl IndexError) = (CHR ''@'' \<notin> set e)"
proof -
  have "(count_list e CHR ''@'' = 0) = (CHR ''@'' \<notin> set e)"
    by (rule count_list_0_iff)
  then show ?thesis
    by (auto simp: domain_of_def index_def length_split)
qed

lemma domain_of_no_at: "CHR ''@'' \<notin> set e \<Longrightarrow> domain_of e \<noteq> Inr d"
  using domain_of_Inl [of e] by simp

lemma get_group_step:
  "get_group (domain_map (group_step g e)) d =
     get_group (domain_map g) d @ (if domain_of e = Inr d then [e] else [])"
  by (auto simp: group_step_def get_group_def split: sum.splits error.splits)

lemma get_group_foldl:
  "get_group (domain_map (foldl group_step g xs)) d =
     get_group (domain_map g) d @ filter (\<lambda>e. domain_of e = Inr d) xs"
  by (induction xs arbitrary: g) (simp_all add: get_group_step)

lemma get_group_group_emails:
  "get_group (domain_map (group_emails xs)) d = filter (\<lambda>e. domain_of e = Inr d) xs"
proof -
  have "get_group (domain_map \<lparr>domain_map = Map.empty, domain_order = []\<rparr>) d = []"
    by (simp add: get_group_def)
  then show ?thesis
    unfolding group_emails_def get_group_foldl by simp
qed

lemma order_dom_step:
  "set (domain_order g) = dom (domain_map g) \<Longrightarrow>
   set (domain_order (group_step g e)) = dom (domain_map (group_step g e))"
  by (auto simp: group_step_def split: sum.splits error.splits if_splits)

lemma order_dom_foldl:
  "set (domain_order g) = dom (domain_map g) \<Longrightarrow>
   set (domain_order (foldl group_step g xs)) = dom (domain_map (foldl group_step g xs))"
  by (induction xs arbitrary: g) (simp_all add: order_dom_step)

lemma order_dom_group_emails:
  "set (domain_order (group_emails xs)) = dom (domain_map (group_emails xs))"
  unfolding group_emails_def by (rule order_dom_foldl) simp

text \<open>The domains of a sequence of addresses, one for each address that has one.\<close>

lemma group_emails_snoc: "group_emails (xs @ [e]) = group_step (group_emails xs) e"
  by (simp add: group_emails_def)

lemma domain_order_step:
  "set (domain_order g) = dom (domain_map g) \<Longrightarrow>
   domain_order (group_step g e) =
     (case domain_of e of
        Inl x \<Rightarrow> domain_order g
      | Inr d \<Rightarrow> if d \<in> set (domain_order g) then domain_order g else domain_order g @ [d])"
  by (auto simp: group_step_def split: sum.splits error.splits)

lemma domain_order_first_seen:
  "domain_order (group_emails xs) = first_seen (domains xs)"
proof (induction xs rule: rev_induct)
  case Nil
  show ?case by (simp add: group_emails_def domains_def)
next
  case (snoc e xs)
  have "domain_order (group_emails (xs @ [e])) =
     (case domain_of e of
        Inl x \<Rightarrow> domain_order (group_emails xs)
      | Inr d \<Rightarrow> if d \<in> set (domain_order (group_emails xs)) then domain_order (group_emails xs)
                 else domain_order (group_emails xs) @ [d])"
    by (simp add: group_emails_snoc domain_order_step order_dom_group_emails)
  then show ?case
    by (simp add: snoc domains_def first_seen_snoc set_first_seen split: sum.splits)
qed

lemma distinct_domain_order: "distinct (domain_order (group_emails xs))"
  by (simp add: domain_order_first_seen distinct_first_seen)

lemma set_domain_order:
  "set (domain_order (group_emails xs)) = {d. \<exists>e \<in> set xs. domain_of e = Inr d}"
  by (auto simp: domain_order_first_seen set_first_seen domains_def split: sum.splits)

section \<open>Selector: the loops in closed form\<close>

lemma starts_with_iff: "starts_with k s \<longleftrightarrow> (\<exists>q. s = k @ q)"
  by (induction k s rule: starts_with.induct) auto

lemma contains_iff: "contains k s \<longleftrightarrow> (\<exists>p q. s = p @ k @ q)"
proof (induction s)
  case Nil
  show ?case by simp
next
  case (Cons c cs)
  have "(\<exists>p q. c # cs = p @ k @ q) \<longleftrightarrow> (\<exists>q. c # cs = k @ q) \<or> (\<exists>p q. cs = p @ k @ q)"
  proof
    assume "\<exists>p q. c # cs = p @ k @ q"
    then obtain p q where pq: "c # cs = p @ k @ q" by blast
    show "(\<exists>q. c # cs = k @ q) \<or> (\<exists>p q. cs = p @ k @ q)"
    proof (cases p)
      case Nil
      then show ?thesis using pq by auto
    next
      case (Cons a p')
      then have "cs = p' @ k @ q" using pq by simp
      then show ?thesis by blast
    qed
  next
    assume "(\<exists>q. c # cs = k @ q) \<or> (\<exists>p q. cs = p @ k @ q)"
    then show "\<exists>p q. c # cs = p @ k @ q"
    proof
      assume "\<exists>q. c # cs = k @ q"
      then obtain q where "c # cs = [] @ k @ q" by auto
      then show ?thesis by blast
    next
      assume "\<exists>p q. cs = p @ k @ q"
      then obtain p q where "c # cs = (c # p) @ k @ q" by auto
      then show ?thesis by blast
    qed
  qed
  then show ?case using Cons.IH by (simp add: starts_with_iff)
qed

lemma local_part_takeWhile: "local_part e = takeWhile (\<lambda>c. c \<noteq> CHR ''@'') e"
proof -
  have "split CHR ''@'' e \<noteq> [] \<and> hd (split CHR ''@'' e) = takeWhile (\<lambda>c. c \<noteq> CHR ''@'') e"
    by (induction e) (auto split: list.splits)
  then show ?thesis by (auto simp: local_part_def split: list.splits)
qed

text \<open>An address is a priority address when a keyword occurs in the part of it before the
  first \<open>@\<close>.\<close>

lemma matches_keyword_iff:
  "matches_keyword kws e \<longleftrightarrow>
     (\<exists>k \<in> set kws. \<exists>p q. takeWhile (\<lambda>c. c \<noteq> CHR ''@'') e = p @ k @ q)"
  by (simp add: matches_keyword_def list_ex_iff contains_iff local_part_takeWhile)

lemma partition_foldl:
  "foldl (partition_step kws) po es =
     (fst po @ filter (matches_keyword kws) es, snd po @ filter (\<lambda>e. \<not> matches_keyword kws e) es)"
  by (induction es arbitrary: po) (simp_all add: partition_step_def)

lemma partition_emails_eq:
  "partition_emails kws es =
     (filter (matches_keyword kws) es, filter (\<lambda>e. \<not> matches_keyword kws e) es)"
  by (simp add: partition_emails_def partition_foldl)

lemma sorted_priority_eq:
  "sorted_priority kws es = sort_key length (filter (matches_keyword kws) es)"
  by (simp add: sorted_priority_def partition_emails_eq)

lemma sorted_others_eq:
  "sorted_others kws es = sort (filter (\<lambda>e. \<not> matches_keyword kws e) es)"
  by (simp add: sorted_others_def partition_emails_eq)

lemma set_slice_to: "set (slice_to n xs) \<subseteq> set xs"
  by (auto simp: slice_to_def dest: in_set_takeD)

lemma distinct_slice_to: "distinct xs \<Longrightarrow> distinct (slice_to n xs)"
  by (simp add: slice_to_def)

lemma slice_to_nonneg: "0 \<le> n \<Longrightarrow> slice_to n xs = take (nat n) xs"
  by (simp add: slice_to_def)

lemma set_candidates:
  "set (sorted_priority kws es @ sorted_others kws es) = set es"
  by (auto simp: sorted_priority_eq sorted_others_eq)

lemma length_candidates:
  "length (sorted_priority kws es @ sorted_others kws es) = length es"
proof -
  have "length (filter (matches_keyword kws) es) + length (filter (\<lambda>e. \<not> matches_keyword kws e) es)
          = length es"
    by (rule sum_length_filter_compl)
  then show ?thesis by (simp add: sorted_priority_eq sorted_others_eq)
qed

lemma distinct_candidates:
  "distinct es \<Longrightarrow> distinct (sorted_priority kws es @ sorted_others kws es)"
  by (auto simp: sorted_priority_eq sorted_others_eq)

lemma set_top_selection: "set (top_selection cap kws es) \<subseteq> set es"
  using set_slice_to [of cap "sorted_priority kws es @ sorted_others kws es"]
  by (simp only: top_selection_def set_candidates)

lemma distinct_top_selection: "distinct es \<Longrightarrow> distinct (top_selection cap kws es)"
  by (simp only: top_selection_def distinct_slice_to distinct_candidates)

lemma top_selection_Nil: "top_selection cap kws [] = []"
  using set_top_selection [of cap kws "[]"] by simp

lemma select_row_foldl:
  "foldl (select_row d p) acc ts =
     acc @ map (\<lambda>s. \<lparr>Domain = d, Email = s,
                     Type = (if s \<in> set p then match_label else general_label)\<rparr>) ts"
  by (induction ts arbitrary: acc) (simp_all add: select_row_def)

lemma skip_step_foldl: "foldl (skip_step S) acc es = acc @ filter (\<lambda>e. e \<notin> S) es"
  by (induction es arbitrary: acc) (simp_all add: skip_step_def)

lemma select_domain_eq:
  "select_domain cap kws dmap acc d =
     \<lparr>final_selection = final_selection acc @ domain_rows cap kws (get_group dmap d) d,
      skipped_emails = skipped_emails acc @ domain_skips cap kws (get_group dmap d)\<rparr>"
  by (simp add: select_domain_def Let_def select_row_foldl skip_step_foldl
      domain_rows_def domain_skips_def)

lemma select_domain_foldl:
  "foldl (select_domain cap kws dmap) acc ds =
     \<lparr>final_selection =
        final_selection acc @ concat (map (\<lambda>d. domain_rows cap kws (get_group dmap d) d) ds),
      skipped_emails =
        skipped_emails acc @ concat (map (\<lambda>d. domain_skips cap kws (get_group dmap d)) ds)\<rparr>"
  by (induction ds arbitrary: acc) (simp_all add: select_domain_eq)

lemma final_selection_select_all:
  "final_selection (select_all cap kws g) =
     concat (map (\<lambda>d. domain_rows cap kws (get_group (domain_map g) d) d) (domain_order g))"
  by (simp add: select_all_def select_domain_foldl)

lemma skipped_emails_select_all:
  "skipped_emails (select_all cap kws g) =
     concat (map (\<lambda>d. domain_skips cap kws (get_group (domain_map g) d)) (domain_order g))"
  by (simp add: select_all_def select_domain_foldl)

text \<open>Filtering a concatenation of blocks by a property that holds in one block only.\<close>

lemma filter_concat_block:
  assumes "distinct ds" and "\<And>d x. d \<in> set ds \<Longrightarrow> x \<in> set (f d) \<Longrightarrow> Q x = (d = a)"
  shows "filter Q (concat (map f ds)) = (if a \<in> set ds then f a else [])"
  using assms
proof (induction ds)
  case Nil
  show ?case by simp
next
  case (Cons d ds)
  have here: "filter Q (f d) = (if d = a then f d else [])"
  proof (cases "d = a")
    case True
    have "\<forall>x \<in> set (f d). Q x" using Cons.prems(2) [of d] True by simp
    then show ?thesis using True by simp
  next
    case False
    have "\<forall>x \<in> set (f d). \<not> Q x" using Cons.prems(2) [of d] False by simp
    then show ?thesis using False by simp
  qed
  have rest: "filter Q (concat (map f ds)) = (if a \<in> set ds then f a else [])"
    using Cons.IH Cons.prems by simp
  show ?case
    using here rest Cons.prems(1) by auto
qed

section \<open>The output of one domain\<close>

lemma unique_emails_process: "unique_emails (process xs cap kws) = dedup xs"
  by (simp add: process_def Let_def)

lemma grouped_process: "grouped (process xs cap kws) = group_emails (dedup xs)"
  by (simp add: process_def Let_def)

lemma selected_process:
  "selected (process xs cap kws) = final_selection (select_all cap kws (group_emails (dedup xs)))"
  by (simp add: process_def Let_def)

lemma skipped_process:
  "skipped (process xs cap kws) = skipped_emails (select_all cap kws (group_emails (dedup xs)))"
  by (simp add: process_def Let_def)

lemma group_of_process:
  "group_of d (process xs cap kws) = filter (\<lambda>e. domain_of e = Inr d) (dedup xs)"
  by (simp add: group_of_def grouped_process get_group_group_emails)

lemma distinct_group_of: "distinct (group_of d (process xs cap kws))"
  by (simp add: group_of_process distinct_dedup)

lemma group_of_empty:
  "d \<notin> set (domain_order (grouped (process xs cap kws))) \<Longrightarrow> group_of d (process xs cap kws) = []"
  by (auto simp: group_of_process grouped_process set_domain_order filter_empty_conv)

lemma map_Email_domain_rows: "map Email (domain_rows cap kws es d) = top_selection cap kws es"
  by (simp add: domain_rows_def comp_def)

lemma selected_for_process:
  "selected_for d (process xs cap kws) = top_selection cap kws (group_of d (process xs cap kws))"
proof -
  let ?g = "group_emails (dedup xs)"
  let ?f = "\<lambda>d. domain_rows cap kws (get_group (domain_map ?g) d) d"
  have "filter (\<lambda>x. Domain x = d) (concat (map ?f (domain_order ?g))) =
          (if d \<in> set (domain_order ?g) then ?f d else [])"
  proof (rule filter_concat_block)
    show "distinct (domain_order ?g)" by (rule distinct_domain_order)
  next
    fix d' x
    assume "x \<in> set (?f d')"
    then show "(Domain x = d) = (d' = d)" by (auto simp: domain_rows_def)
  qed
  then have "selected_for d (process xs cap kws) =
          (if d \<in> set (domain_order ?g) then top_selection cap kws (get_group (domain_map ?g) d) else [])"
    by (simp add: selected_for_def selected_process final_selection_select_all map_Email_domain_rows)
  moreover have "d \<notin> set (domain_order ?g) \<Longrightarrow> top_selection cap kws (get_group (domain_map ?g) d) = []"
    using group_of_empty [of d xs cap kws]
    by (simp add: group_of_def grouped_process top_selection_Nil)
  ultimately show ?thesis
    by (simp add: group_of_def grouped_process)
qed

lemma skipped_for_process:
  "skipped_for d (process xs cap kws) = domain_skips cap kws (group_of d (process xs cap kws))"
proof -
  let ?g = "group_emails (dedup xs)"
  let ?f = "\<lambda>d. domain_skips cap kws (get_group (domain_map ?g) d)"
  have "filter (\<lambda>e. domain_of e = Inr d) (concat (map ?f (domain_order ?g))) =
          (if d \<in> set (domain_order ?g) then ?f d else [])"
  proof (rule filter_concat_block)
    show "distinct (domain_order ?g)" by (rule distinct_domain_order)
  next
    fix d' x
    assume "x \<in> set (?f d')"
    then have "domain_of x = Inr d'"
      by (simp add: domain_skips_def get_group_group_emails)
    then show "(domain_of x = Inr d) = (d' = d)" by auto
  qed
  then have "skipped_for d (process xs cap kws) =
          (if d \<in> set (domain_order ?g) then domain_skips cap kws (get_group (domain_map ?g) d) else [])"
    by (simp add: skipped_for_def skipped_process skipped_emails_select_all)
  moreover have "d \<notin> set (domain_order ?g) \<Longrightarrow> domain_skips cap kws (get_group (domain_map ?g) d) = []"
    using group_of_empty [of d xs cap kws]
    by (simp add: group_of_def grouped_process domain_skips_def)
  ultimately show ?thesis
    by (simp add: group_of_def grouped_process)
qed

text \<open>
  Claim C1. For every pasted text, keyword list and cap, and for every domain: the
  selected addresses of the domain together with its skipped addresses are exactly the
  unique (deduplicated, lower-cased) addresses grouped under the domain, and no address is
  both selected and skipped.
\<close>

theorem partition_complete:
  "set (selected_for d (run_extraction raw_text cap kws))
     \<union> set (skipped_for d (run_extraction raw_text cap kws))
   = set (filter (\<lambda>e. domain_of e = Inr d) (unique_emails (run_extraction raw_text cap kws)))
   \<and> set (selected_for d (run_extraction raw_text cap kws))
     \<inter> set (skipped_for d (run_extraction raw_text cap kws)) = {}"
proof -
  let ?r = "process (findall raw_text) cap kws"
  have g: "filter (\<lambda>e. domain_of e = Inr d) (unique_emails ?r) = group_of d ?r"
    by (simp add: group_of_process unique_emails_process)
  have sub: "set (top_selection cap kws (group_of d ?r)) \<subseteq> set (group_of d ?r)"
    by (rule set_top_selection)
  have "set (selected_for d ?r) \<union> set (skipped_for d ?r) = set (group_of d ?r)"
    using sub by (auto simp: selected_for_process skipped_for_process domain_skips_def)
  moreover have "set (selected_for d ?r) \<inter> set (skipped_for d ?r) = {}"
    by (auto simp: selected_for_process skipped_for_process domain_skips_def)
  ultimately show ?thesis
    by (simp only: run_extraction_def g) 
qed

theorem partition_complete_example:
  "set (selected_for ''x.com'' (run_extraction ''ceo@x.com bob@y.org Bob@Y.org alice@x.com'' 1 [''ceo'']))
     \<union> set (skipped_for ''x.com'' (run_extraction ''ceo@x.com bob@y.org Bob@Y.org alice@x.com'' 1 [''ceo'']))
   = set [''ceo@x.com'', ''alice@x.com'']
   \<and> selected_for ''x.com'' (run_extraction ''ceo@x.com bob@y.org Bob@Y.org alice@x.com'' 1 [''ceo''])
     = [''ceo@x.com'']
   \<and> skipped_for ''x.com'' (run_extraction ''ceo@x.com bob@y.org Bob@Y.org alice@x.com'' 1 [''ceo''])
     = [''alice@x.com'']"
proof -
  let ?r = "run_extraction ''ceo@x.com bob@y.org Bob@Y.org alice@x.com'' 1 [''ceo'']"
  have u: "filter (\<lambda>e. domain_of e = Inr ''x.com'') (unique_emails ?r) = [''ceo@x.com'', ''alice@x.com'']"
    by code_simp
  have s: "selected_for ''x.com'' ?r = [''ceo@x.com'']"
    by code_simp
  have k: "skipped_for ''x.com'' ?r = [''alice@x.com'']"
    by code_simp
  have "set (selected_for ''x.com'' ?r) \<union> set (skipped_for ''x.com'' ?r)
      = set (filter (\<lambda>e. domain_of e = Inr ''x.com'') (unique_emails ?r))"
    using partition_complete [where d = "''x.com''" and raw_text = "''ceo@x.com bob@y.org Bob@Y.org alice@x.com''"
        and cap = 1 and kws = "[''ceo'']"]
    by (rule conjunct1)
  then have "set (selected_for ''x.com'' ?r) \<union> set (skipped_for ''x.com'' ?r)
      = set [''ceo@x.com'', ''alice@x.com'']"
    by (simp only: u)
  then show ?thesis using s k by blast
qed

section \<open>The cap\<close>

lemma set_partition_fst:
  "set (fst (partition_emails kws es)) = {e \<in> set es. matches_keyword kws e}"
  by (auto simp: partition_emails_eq)

lemma set_sorted_priority:
  "set (sorted_priority kws es) = set (fst (partition_emails kws es))"
  by (simp add: sorted_priority_def)

lemma length_sorted_priority:
  "length (sorted_priority kws es) = length (fst (partition_emails kws es))"
  by (simp add: sorted_priority_def)

lemma length_top_selection:
  "0 \<le> cap \<Longrightarrow> length (top_selection cap kws es) = min (nat cap) (length es)"
proof -
  assume "0 \<le> cap"
  then have "length (top_selection cap kws es) =
      min (length (sorted_priority kws es @ sorted_others kws es)) (nat cap)"
    by (simp only: top_selection_def slice_to_nonneg length_take)
  then show ?thesis
    by (simp only: length_candidates min.commute)
qed

text \<open>
  Claim C4. For a cap that is not negative (the configured range is 1 to 200), every
  domain has at most \<open>max_per_domain\<close> selected entries.
\<close>

theorem cap_respected:
  "0 \<le> cap \<Longrightarrow> int (length (selected_for d (run_extraction raw_text cap kws))) \<le> cap"
  by (simp add: run_extraction_def selected_for_process length_top_selection)

theorem cap_respected_example:
  "(0::int) \<le> 1
   \<and> int (length (selected_for ''x.com'' (run_extraction ''ceo@x.com bob@x.com alice@x.com'' 1 [''ceo'']))) \<le> 1
   \<and> selected_for ''x.com'' (run_extraction ''ceo@x.com bob@x.com alice@x.com'' 1 [''ceo'']) = [''ceo@x.com'']"
proof -
  have h: "(0::int) \<le> 1" by simp
  have v: "selected_for ''x.com'' (run_extraction ''ceo@x.com bob@x.com alice@x.com'' 1 [''ceo'']) = [''ceo@x.com'']"
    by code_simp
  show ?thesis
    using h cap_respected [OF h, where d = "''x.com''" and raw_text = "''ceo@x.com bob@x.com alice@x.com''"
        and kws = "[''ceo'']"] v
    by blast
qed

text \<open>
  Claim C5. For a cap that is not negative: when the priority partition of a domain has
  at least \<open>max_per_domain\<close> entries, the selected list of the domain is the first
  \<open>max_per_domain\<close> entries of the priority partition sorted by length, so it has
  priority entries only, in ascending length.
\<close>

theorem priority_precedence:
  assumes "0 \<le> cap"
    and "cap \<le> int (length (fst (partition_emails kws (group_of d (run_extraction raw_text cap kws)))))"
  shows "selected_for d (run_extraction raw_text cap kws) =
           take (nat cap) (sort_key length
             (fst (partition_emails kws (group_of d (run_extraction raw_text cap kws)))))
         \<and> set (selected_for d (run_extraction raw_text cap kws))
             \<subseteq> set (fst (partition_emails kws (group_of d (run_extraction raw_text cap kws))))
         \<and> sorted (map length (selected_for d (run_extraction raw_text cap kws)))"
proof -
  let ?es = "group_of d (process (findall raw_text) cap kws)"
  let ?p = "fst (partition_emails kws ?es)"
  have len: "nat cap \<le> length (sort_key length ?p)"
    using assms by (simp add: run_extraction_def)
  have "selected_for d (process (findall raw_text) cap kws) =
          take (nat cap) (sort_key length ?p @ sorted_others kws ?es)"
    using assms(1)
    by (simp only: selected_for_process top_selection_def slice_to_nonneg sorted_priority_def)
  then have sel: "selected_for d (process (findall raw_text) cap kws) =
          take (nat cap) (sort_key length ?p)"
    using len by simp
  have "set (take (nat cap) (sort_key length ?p)) \<subseteq> set ?p"
    using set_take_subset [of "nat cap" "sort_key length ?p"] by simp
  moreover have "sorted (map length (take (nat cap) (sort_key length ?p)))"
    by (simp add: take_map [symmetric] sorted_wrt_take)
  ultimately show ?thesis
    using sel by (simp only: run_extraction_def)
qed

theorem priority_precedence_example:
  "(0::int) \<le> 1
   \<and> 1 \<le> int (length (fst (partition_emails [''ceo'']
        (group_of ''x.com'' (run_extraction ''ceo.office@x.com bob@x.com ceo@x.com'' 1 [''ceo''])))))
   \<and> selected_for ''x.com'' (run_extraction ''ceo.office@x.com bob@x.com ceo@x.com'' 1 [''ceo'']) =
       take (nat 1) (sort_key length (fst (partition_emails [''ceo'']
         (group_of ''x.com'' (run_extraction ''ceo.office@x.com bob@x.com ceo@x.com'' 1 [''ceo''])))))
   \<and> selected_for ''x.com'' (run_extraction ''ceo.office@x.com bob@x.com ceo@x.com'' 1 [''ceo''])
       = [''ceo@x.com'']
   \<and> fst (partition_emails [''ceo'']
        (group_of ''x.com'' (run_extraction ''ceo.office@x.com bob@x.com ceo@x.com'' 1 [''ceo''])))
       = [''ceo.office@x.com'', ''ceo@x.com'']"
proof -
  let ?r = "run_extraction ''ceo.office@x.com bob@x.com ceo@x.com'' 1 [''ceo'']"
  have h1: "(0::int) \<le> 1" by simp
  have p: "fst (partition_emails [''ceo''] (group_of ''x.com'' ?r)) = [''ceo.office@x.com'', ''ceo@x.com'']"
    by code_simp
  have h2: "1 \<le> int (length (fst (partition_emails [''ceo''] (group_of ''x.com'' ?r))))"
    by (simp only: p) simp
  have v: "selected_for ''x.com'' ?r = [''ceo@x.com'']"
    by code_simp
  show ?thesis
    using h1 h2 priority_precedence [OF h1 h2] p v by blast
qed

section \<open>Order, tags and malformed entries\<close>

text \<open>
  Claim C2. For a cap that is not negative and every domain: the addresses of the domain
  are the unique addresses with that domain in first-seen order; the partition loop splits
  them into priority, the addresses whose local part (the part before the first
  \<open>@\<close>) contains some keyword as a contiguous substring, and others, the remaining
  ones; priority is sorted by length with a stable sort (a permutation in ascending length
  in which the entries of any one length keep their order), others is sorted by the order
  of strings; the selected entries are the first \<open>max_per_domain\<close> of priority
  followed by others; the skipped entries are the remaining addresses of the domain in
  their first-seen order.
\<close>

theorem selector_order:
  assumes "0 \<le> cap"
  shows "(let r = run_extraction raw_text cap kws;
              emails = group_of d r;
              priority = filter
                (\<lambda>e. \<exists>k \<in> set kws. \<exists>p q. takeWhile (\<lambda>c. c \<noteq> CHR ''@'') e = p @ k @ q)
                emails;
              others = filter
                (\<lambda>e. \<not> (\<exists>k \<in> set kws. \<exists>p q. takeWhile (\<lambda>c. c \<noteq> CHR ''@'') e = p @ k @ q))
                emails
          in emails = filter (\<lambda>e. domain_of e = Inr d) (unique_emails r)
           \<and> partition_emails kws emails = (priority, others)
           \<and> priority = filter (matches_keyword kws) emails
           \<and> others = filter (\<lambda>e. \<not> matches_keyword kws e) emails
           \<and> sorted (map length (sort_key length priority))
           \<and> mset (sort_key length priority) = mset priority
           \<and> (\<forall>k. filter (\<lambda>e. length e = k) (sort_key length priority) =
                    filter (\<lambda>e. length e = k) priority)
           \<and> sorted (sort others) \<and> mset (sort others) = mset others
           \<and> selected_for d r = take (nat cap) (sort_key length priority @ sort others)
           \<and> skipped_for d r = filter (\<lambda>e. e \<notin> set (selected_for d r)) emails)"
proof -
  let ?r = "process (findall raw_text) cap kws"
  let ?es = "group_of d ?r"
  let ?p = "filter
      (\<lambda>e. \<exists>k \<in> set kws. \<exists>p q. takeWhile (\<lambda>c. c \<noteq> CHR ''@'') e = p @ k @ q)
      ?es"
  let ?o = "filter
      (\<lambda>e. \<not> (\<exists>k \<in> set kws. \<exists>p q. takeWhile (\<lambda>c. c \<noteq> CHR ''@'') e = p @ k @ q))
      ?es"
  have crit: "matches_keyword kws =
      (\<lambda>e. \<exists>k \<in> set kws. \<exists>p q. takeWhile (\<lambda>c. c \<noteq> CHR ''@'') e = p @ k @ q)"
    by (rule ext) (rule matches_keyword_iff)
  have a: "?es = filter (\<lambda>e. domain_of e = Inr d) (unique_emails ?r)"
    by (simp add: group_of_process unique_emails_process)
  have b: "partition_emails kws ?es = (?p, ?o)"
    by (simp only: partition_emails_eq crit)
  have b1: "?p = filter (matches_keyword kws) ?es"
    by (simp only: crit)
  have b2: "?o = filter (\<lambda>e. \<not> matches_keyword kws e) ?es"
    by (simp only: crit)
  have c: "sorted (map length (sort_key length ?p))"
    by (rule sorted_sort_key)
  have d: "mset (sort_key length ?p) = mset ?p"
    by (rule mset_sort)
  have e: "\<forall>k. filter (\<lambda>e. length e = k) (sort_key length ?p) = filter (\<lambda>e. length e = k) ?p"
    by (simp add: sort_key_stable)
  have f: "sorted (sort ?o) \<and> mset (sort ?o) = mset ?o"
    by simp
  have g: "selected_for d ?r = take (nat cap) (sort_key length ?p @ sort ?o)"
    using assms
    by (simp only: selected_for_process top_selection_def slice_to_nonneg
        sorted_priority_eq sorted_others_eq crit)
  have h: "skipped_for d ?r = filter (\<lambda>e. e \<notin> set (selected_for d ?r)) ?es"
    by (simp only: skipped_for_process domain_skips_def selected_for_process)
  show ?thesis
    unfolding Let_def run_extraction_def
    using a b b1 b2 c d e f g h by blast
qed

theorem selector_order_example:
  "(0::int) \<le> 2
   \<and> selected_for ''ceo.io'' (run_extraction ''marceo@ceo.io bob@ceo.io alice@ceo.io carl@ceo.io'' 2 [''ceo''])
       = take (nat 2)
           (sort_key length (filter
              (\<lambda>e. \<exists>k \<in> set [''ceo'']. \<exists>p q. takeWhile (\<lambda>c. c \<noteq> CHR ''@'') e = p @ k @ q)
              (group_of ''ceo.io'' (run_extraction ''marceo@ceo.io bob@ceo.io alice@ceo.io carl@ceo.io'' 2 [''ceo''])))
            @ sort (filter
              (\<lambda>e. \<not> (\<exists>k \<in> set [''ceo'']. \<exists>p q. takeWhile (\<lambda>c. c \<noteq> CHR ''@'') e = p @ k @ q))
              (group_of ''ceo.io'' (run_extraction ''marceo@ceo.io bob@ceo.io alice@ceo.io carl@ceo.io'' 2 [''ceo'']))))
   \<and> filter
         (\<lambda>e. \<exists>k \<in> set [''ceo'']. \<exists>p q. takeWhile (\<lambda>c. c \<noteq> CHR ''@'') e = p @ k @ q)
         (group_of ''ceo.io'' (run_extraction ''marceo@ceo.io bob@ceo.io alice@ceo.io carl@ceo.io'' 2 [''ceo'']))
       = [''marceo@ceo.io'']
   \<and> group_of ''ceo.io'' (run_extraction ''marceo@ceo.io bob@ceo.io alice@ceo.io carl@ceo.io'' 2 [''ceo''])
       = [''marceo@ceo.io'', ''bob@ceo.io'', ''alice@ceo.io'', ''carl@ceo.io'']
   \<and> selected_for ''ceo.io'' (run_extraction ''marceo@ceo.io bob@ceo.io alice@ceo.io carl@ceo.io'' 2 [''ceo''])
       = [''marceo@ceo.io'', ''alice@ceo.io'']
   \<and> skipped_for ''ceo.io'' (run_extraction ''marceo@ceo.io bob@ceo.io alice@ceo.io carl@ceo.io'' 2 [''ceo''])
       = [''bob@ceo.io'', ''carl@ceo.io'']"
proof -
  let ?r = "run_extraction ''marceo@ceo.io bob@ceo.io alice@ceo.io carl@ceo.io'' 2 [''ceo'']"
  let ?sp = "\<lambda>e. \<exists>k \<in> set [''ceo'']. \<exists>p q. takeWhile (\<lambda>c. c \<noteq> CHR ''@'') e = p @ k @ q"
  have h: "(0::int) \<le> 2" by simp
  have g: "group_of ''ceo.io'' ?r = [''marceo@ceo.io'', ''bob@ceo.io'', ''alice@ceo.io'', ''carl@ceo.io'']"
    by code_simp
  have s: "selected_for ''ceo.io'' ?r = [''marceo@ceo.io'', ''alice@ceo.io'']"
    by code_simp
  have k: "skipped_for ''ceo.io'' ?r = [''bob@ceo.io'', ''carl@ceo.io'']"
    by code_simp
  have pe: "partition_emails [''ceo''] (group_of ''ceo.io'' ?r) =
      ([''marceo@ceo.io''], [''bob@ceo.io'', ''alice@ceo.io'', ''carl@ceo.io''])"
    by code_simp
  note inst = selector_order [OF h, where d = "''ceo.io''"
        and raw_text = "''marceo@ceo.io bob@ceo.io alice@ceo.io carl@ceo.io''" and kws = "[''ceo'']", unfolded Let_def]
  have t1: "partition_emails [''ceo''] (group_of ''ceo.io'' ?r) =
      (filter ?sp (group_of ''ceo.io'' ?r), filter (\<lambda>e. \<not> ?sp e) (group_of ''ceo.io'' ?r))"
    using inst by blast
  have t2: "selected_for ''ceo.io'' ?r
       = take (nat 2)
           (sort_key length (filter ?sp (group_of ''ceo.io'' ?r))
            @ sort (filter (\<lambda>e. \<not> ?sp e) (group_of ''ceo.io'' ?r)))"
    using inst by blast
  have "(filter ?sp (group_of ''ceo.io'' ?r), filter (\<lambda>e. \<not> ?sp e) (group_of ''ceo.io'' ?r)) =
      ([''marceo@ceo.io''], [''bob@ceo.io'', ''alice@ceo.io'', ''carl@ceo.io''])"
    using t1 pe by (rule trans [OF sym])
  then have t3: "filter ?sp (group_of ''ceo.io'' ?r) = [''marceo@ceo.io'']"
    by (rule Pair_inject)
  show ?thesis using h t2 t3 g s k by blast
qed

text \<open>
  Claim C6 as it is stated fails: the \<open>Type\<close> of a row is never the string
  \<open>priority\<close> or \<open>general\<close>. The row of a priority address carries
  \<open>match_label\<close>, the row of any other address \<open>general_label\<close>.
\<close>

theorem type_labels_counterexample:
  "selected (run_extraction ''ceo@x.com bob@x.com'' 5 [''ceo'']) =
     [\<lparr>Domain = ''x.com'', Email = ''ceo@x.com'', Type = match_label\<rparr>,
      \<lparr>Domain = ''x.com'', Email = ''bob@x.com'', Type = general_label\<rparr>]
   \<and> fst (partition_emails [''ceo''] (group_of ''x.com'' (run_extraction ''ceo@x.com bob@x.com'' 5 [''ceo''])))
       = [''ceo@x.com'']
   \<and> match_label \<noteq> ''priority''
   \<and> general_label \<noteq> ''general''"
proof -
  have a: "selected (run_extraction ''ceo@x.com bob@x.com'' 5 [''ceo'']) =
     [\<lparr>Domain = ''x.com'', Email = ''ceo@x.com'', Type = match_label\<rparr>,
      \<lparr>Domain = ''x.com'', Email = ''bob@x.com'', Type = general_label\<rparr>]"
    by code_simp
  have b: "fst (partition_emails [''ceo''] (group_of ''x.com'' (run_extraction ''ceo@x.com bob@x.com'' 5 [''ceo''])))
       = [''ceo@x.com'']"
    by code_simp
  have c: "match_label \<noteq> ''priority''" by code_simp
  have d: "general_label \<noteq> ''general''" by code_simp
  show ?thesis using a b c d by blast
qed

text \<open>
  Claim C6, amended. Every row of the selected output has a \<open>Domain\<close> of the domain
  order, an \<open>Email\<close> of that domain's group, and as \<open>Type\<close> the label
  \<open>match_label\<close> when the email is in the priority partition of its domain and the
  label \<open>general_label\<close> otherwise.
\<close>

theorem selected_rows_tagged:
  "\<forall>x \<in> set (selected (run_extraction raw_text cap kws)).
     Domain x \<in> set (domain_order (grouped (run_extraction raw_text cap kws)))
     \<and> Email x \<in> set (group_of (Domain x) (run_extraction raw_text cap kws))
     \<and> Type x =
        (if Email x \<in> set (fst (partition_emails kws
              (group_of (Domain x) (run_extraction raw_text cap kws))))
         then match_label else general_label)"
proof
  fix x
  let ?r = "process (findall raw_text) cap kws"
  let ?g = "group_emails (dedup (findall raw_text))"
  assume "x \<in> set (selected (run_extraction raw_text cap kws))"
  then obtain d where d: "d \<in> set (domain_order ?g)"
    and x: "x \<in> set (domain_rows cap kws (get_group (domain_map ?g) d) d)"
    by (auto simp: run_extraction_def selected_process final_selection_select_all)
  have grp: "group_of d ?r = get_group (domain_map ?g) d"
    by (simp add: group_of_def grouped_process)
  from x have dom: "Domain x = d"
    and em: "Email x \<in> set (top_selection cap kws (group_of d ?r))"
    and ty: "Type x = (if Email x \<in> set (sorted_priority kws (group_of d ?r))
                       then match_label else general_label)"
    by (auto simp: domain_rows_def grp)
  have "Email x \<in> set (group_of d ?r)"
    using em set_top_selection by blast
  then show "Domain x \<in> set (domain_order (grouped (run_extraction raw_text cap kws)))
     \<and> Email x \<in> set (group_of (Domain x) (run_extraction raw_text cap kws))
     \<and> Type x =
        (if Email x \<in> set (fst (partition_emails kws
              (group_of (Domain x) (run_extraction raw_text cap kws))))
         then match_label else general_label)"
    using d dom ty
    by (simp add: run_extraction_def grouped_process set_sorted_priority)
qed

theorem selected_rows_tagged_example:
  "\<lparr>Domain = ''x.com'', Email = ''ceo@x.com'', Type = match_label\<rparr>
     \<in> set (selected (run_extraction ''ceo@x.com bob@x.com'' 5 [''ceo'']))
   \<and> ''x.com'' \<in> set (domain_order (grouped (run_extraction ''ceo@x.com bob@x.com'' 5 [''ceo''])))
   \<and> ''ceo@x.com'' \<in> set (group_of ''x.com'' (run_extraction ''ceo@x.com bob@x.com'' 5 [''ceo'']))
   \<and> ''ceo@x.com'' \<in> set (fst (partition_emails [''ceo'']
        (group_of ''x.com'' (run_extraction ''ceo@x.com bob@x.com'' 5 [''ceo'']))))"
proof -
  let ?r = "run_extraction ''ceo@x.com bob@x.com'' 5 [''ceo'']"
  let ?x = "\<lparr>Domain = ''x.com'', Email = ''ceo@x.com'', Type = match_label\<rparr>"
  have mem: "?x \<in> set (selected ?r)"
    by code_simp
  have ne: "match_label \<noteq> general_label"
    by code_simp
  have "Domain ?x \<in> set (domain_order (grouped ?r))
     \<and> Email ?x \<in> set (group_of (Domain ?x) ?r)
     \<and> Type ?x =
        (if Email ?x \<in> set (fst (partition_emails [''ceo''] (group_of (Domain ?x) ?r)))
         then match_label else general_label)"
    using selected_rows_tagged [where raw_text = "''ceo@x.com bob@x.com''" and cap = 5 and kws = "[''ceo'']"] mem
    by (rule bspec)
  then show ?thesis
    using mem ne by (simp split: if_splits)
qed

lemma group_step_no_at: "CHR ''@'' \<notin> set e \<Longrightarrow> group_step g e = g"
  by (simp add: group_step_def domain_of_Inl [symmetric])

lemma group_emails_append:
  "group_emails (xs @ ys) = foldl group_step (group_emails xs) ys"
  by (simp add: group_emails_def)

text \<open>
  Claim C7. An entry without \<open>@\<close> that reaches the grouper raises the
  \<open>IndexError\<close> that the loop catches: the turn leaves the groups and the domain
  order as they are, so grouping a sequence with the entry gives what grouping the
  sequence without it gives, the entry is in no group, and the selection on the
  remaining entries is the same.
\<close>

theorem grouper_skips_malformed:
  assumes "CHR ''@'' \<notin> set e"
  shows "domain_of e = Inl IndexError
       \<and> group_step g e = g
       \<and> group_emails (xs @ e # ys) = group_emails (xs @ ys)
       \<and> e \<notin> set (get_group (domain_map (group_emails (xs @ e # ys))) d)
       \<and> select_all cap kws (group_emails (xs @ e # ys)) =
           select_all cap kws (group_emails (xs @ ys))"
proof -
  have a: "domain_of e = Inl IndexError"
    using assms by (simp add: domain_of_Inl)
  have b: "group_step g e = g" for g
    using assms by (rule group_step_no_at)
  have c: "group_emails (xs @ e # ys) = group_emails (xs @ ys)"
    by (simp add: group_emails_append b)
  have "domain_of e \<noteq> Inr d" using a by simp
  then have d: "e \<notin> set (get_group (domain_map (group_emails (xs @ e # ys))) d)"
    by (simp add: get_group_group_emails)
  show ?thesis using a b c d by simp
qed

theorem grouper_skips_malformed_example:
  "CHR ''@'' \<notin> set ''nodomain''
   \<and> domain_of ''nodomain'' = Inl IndexError
   \<and> group_emails ([''a@x.com''] @ ''nodomain'' # [''b@y.org'']) = group_emails ([''a@x.com''] @ [''b@y.org''])
   \<and> domain_order (group_emails ([''a@x.com''] @ ''nodomain'' # [''b@y.org''])) = [''x.com'', ''y.org'']"
proof -
  have h: "CHR ''@'' \<notin> set ''nodomain''" by simp
  have v: "domain_order (group_emails ([''a@x.com''] @ ''nodomain'' # [''b@y.org''])) = [''x.com'', ''y.org'']"
    by code_simp
  show ?thesis
    using h grouper_skips_malformed [OF h, where xs = "[''a@x.com'']" and ys = "[''b@y.org'']"] v
    by blast
qed

section \<open>Counters\<close>

text \<open>Every match of the detector has an @, and keeps it in lower case.\<close>

lemma match_email_at: "match_email s = Some m \<Longrightarrow> CHR ''@'' \<in> set m"
  by (auto simp: match_email_def Let_def split: if_splits list.splits option.splits)

lemma findall_at: "m \<in> set (findall s) \<Longrightarrow> CHR ''@'' \<in> set m"
proof (induction s rule: findall.induct)
  case 1
  then show ?case by simp
next
  case (2 c cs)
  then show ?case
    by (cases "match_email (c # cs)") (auto dest: match_email_at)
qed

lemma lower_char_at: "lower_char CHR ''@'' = CHR ''@''"
  by (simp add: lower_char_def)

lemma lower_at: "CHR ''@'' \<in> set m \<Longrightarrow> CHR ''@'' \<in> set (lower m)"
proof -
  assume "CHR ''@'' \<in> set m"
  then have "lower_char CHR ''@'' \<in> lower_char ` set m" by (rule imageI)
  then show ?thesis by (simp add: lower_def lower_char_at)
qed

lemma unique_emails_at:
  "e \<in> set (unique_emails (run_extraction raw_text cap kws)) \<Longrightarrow> CHR ''@'' \<in> set e"
  by (auto simp: run_extraction_def unique_emails_process set_dedup dest: findall_at lower_at)

lemma length_skips:
  assumes "distinct xs" and "distinct ys" and "set ys \<subseteq> set xs"
  shows "length ys + length (filter (\<lambda>e. e \<notin> set ys) xs) = length xs"
proof -
  have "length (filter (\<lambda>e. e \<notin> set ys) xs) = card (set xs - set ys)"
  proof -
    have "set (filter (\<lambda>e. e \<notin> set ys) xs) = set xs - set ys" by auto
    moreover have "distinct (filter (\<lambda>e. e \<notin> set ys) xs)" using assms(1) by simp
    ultimately show ?thesis using distinct_card by metis
  qed
  also have "\<dots> = card (set xs) - card (set ys)"
    using assms(3) by (simp add: card_Diff_subset)
  also have "\<dots> = length xs - length ys"
    using assms(1,2) by (simp add: distinct_card)
  finally have "length (filter (\<lambda>e. e \<notin> set ys) xs) = length xs - length ys" .
  moreover have "length ys \<le> length xs"
    using assms by (metis card_mono distinct_card List.finite_set)
  ultimately show ?thesis by simp
qed

lemma length_rows_skips:
  "distinct es \<Longrightarrow>
   length (domain_rows cap kws es d) + length (domain_skips cap kws es) = length es"
proof -
  assume "distinct es"
  then have "length (top_selection cap kws es)
      + length (filter (\<lambda>e. e \<notin> set (top_selection cap kws es)) es) = length es"
    by (intro length_skips distinct_top_selection set_top_selection)
  then show ?thesis by (simp add: domain_rows_def domain_skips_def)
qed

lemma sum_list_indicator:
  "distinct ds \<Longrightarrow> a \<in> set ds \<Longrightarrow> sum_list (map (\<lambda>d. if a = d then 1 else 0) ds) = (1::nat)"
proof (induction ds)
  case Nil
  then show ?case by simp
next
  case (Cons d ds)
  show ?case
  proof (cases "a = d")
    case True
    then have "a \<notin> set ds" using Cons.prems(1) by simp
    then have "sum_list (map (\<lambda>d. if a = d then 1 else 0) ds) = (0::nat)"
      by (induction ds) auto
    then show ?thesis using True by simp
  next
    case False
    then show ?thesis using Cons by simp
  qed
qed

lemma sum_list_groups:
  assumes "distinct ds" and "\<forall>e \<in> set xs. \<exists>d \<in> set ds. domain_of e = Inr d"
  shows "sum_list (map (\<lambda>d. length (filter (\<lambda>e. domain_of e = Inr d) xs)) ds) = length xs"
  using assms(2)
proof (induction xs)
  case Nil
  show ?case by simp
next
  case (Cons x xs)
  then obtain a where a: "a \<in> set ds" "domain_of x = Inr a" by auto
  have "sum_list (map (\<lambda>d. length (filter (\<lambda>e. domain_of e = Inr d) (x # xs))) ds) =
        sum_list (map (\<lambda>d. (if a = d then 1 else 0) + length (filter (\<lambda>e. domain_of e = Inr d) xs)) ds)"
    by (rule arg_cong [where f = sum_list]) (auto simp: a(2))
  also have "\<dots> = sum_list (map (\<lambda>d. if a = d then 1 else 0) ds)
        + sum_list (map (\<lambda>d. length (filter (\<lambda>e. domain_of e = Inr d) xs)) ds)"
    by (rule sum_list_addf)
  also have "\<dots> = 1 + length xs"
    using Cons a(1) assms(1) by (simp add: sum_list_indicator)
  finally show ?case by simp
qed

lemma counts_select_all:
  assumes "distinct us" and "\<forall>e \<in> set us. CHR ''@'' \<in> set e"
  shows "length (final_selection (select_all cap kws (group_emails us)))
       + length (skipped_emails (select_all cap kws (group_emails us))) = length us"
proof -
  let ?g = "group_emails us"
  let ?ds = "domain_order ?g"
  let ?grp = "\<lambda>d. filter (\<lambda>e. domain_of e = Inr d) us"
  have "length (final_selection (select_all cap kws ?g))
       + length (skipped_emails (select_all cap kws ?g))
     = sum_list (map (\<lambda>d. length (domain_rows cap kws (?grp d) d)) ?ds)
       + sum_list (map (\<lambda>d. length (domain_skips cap kws (?grp d))) ?ds)"
    by (simp add: final_selection_select_all skipped_emails_select_all length_concat
        get_group_group_emails comp_def)
  also have "\<dots> = sum_list (map (\<lambda>d. length (domain_rows cap kws (?grp d) d)
                                    + length (domain_skips cap kws (?grp d))) ?ds)"
    by (simp add: sum_list_addf)
  also have "\<dots> = sum_list (map (\<lambda>d. length (?grp d)) ?ds)"
    using assms(1) by (simp add: length_rows_skips)
  also have "\<dots> = length us"
  proof (rule sum_list_groups)
    show "distinct ?ds" by (rule distinct_domain_order)
  next
    show "\<forall>e \<in> set us. \<exists>d \<in> set ?ds. domain_of e = Inr d"
    proof
      fix e assume e: "e \<in> set us"
      then have "domain_of e \<noteq> Inl IndexError" using assms(2) by (simp add: domain_of_Inl)
      then obtain d where "domain_of e = Inr d"
        by (cases "domain_of e") (auto intro: error.exhaust)
      then show "\<exists>d \<in> set ?ds. domain_of e = Inr d"
        using e by (auto simp: set_domain_order)
    qed
  qed
  finally show ?thesis .
qed

text \<open>
  Claim C10. For a cap that is not negative, every domain selects as many entries as the
  smaller of \<open>max_per_domain\<close> and the number of unique addresses grouped under it;
  and the counters satisfy selected count + skipped count = unique total.
\<close>

theorem selected_count_min:
  assumes "0 \<le> cap"
  shows "length (selected_for d (run_extraction raw_text cap kws)) =
           min (nat cap) (length (group_of d (run_extraction raw_text cap kws)))
       \<and> selected_count (run_extraction raw_text cap kws)
           + skipped_count (run_extraction raw_text cap kws)
         = unique_total (run_extraction raw_text cap kws)"
proof -
  let ?us = "dedup (findall raw_text)"
  have "length (selected_for d (run_extraction raw_text cap kws)) =
           min (nat cap) (length (group_of d (run_extraction raw_text cap kws)))"
    using assms by (simp add: run_extraction_def selected_for_process length_top_selection)
  moreover have "length (final_selection (select_all cap kws (group_emails ?us)))
       + length (skipped_emails (select_all cap kws (group_emails ?us))) = length ?us"
  proof (rule counts_select_all)
    show "distinct ?us" by (rule distinct_dedup)
  next
    show "\<forall>e \<in> set ?us. CHR ''@'' \<in> set e"
      using unique_emails_at [of _ raw_text cap kws]
      by (simp add: run_extraction_def unique_emails_process)
  qed
  ultimately show ?thesis
    by (simp add: selected_count_def skipped_count_def unique_total_def run_extraction_def
        selected_process skipped_process unique_emails_process)
qed

theorem selected_count_min_example:
  "(0::int) \<le> 1
   \<and> length (selected_for ''x.com'' (run_extraction ''ceo@x.com bob@y.org Bob@Y.org alice@x.com'' 1 [''ceo''])) =
       min (nat 1) (length (group_of ''x.com'' (run_extraction ''ceo@x.com bob@y.org Bob@Y.org alice@x.com'' 1 [''ceo''])))
   \<and> selected_count (run_extraction ''ceo@x.com bob@y.org Bob@Y.org alice@x.com'' 1 [''ceo''])
       + skipped_count (run_extraction ''ceo@x.com bob@y.org Bob@Y.org alice@x.com'' 1 [''ceo''])
     = unique_total (run_extraction ''ceo@x.com bob@y.org Bob@Y.org alice@x.com'' 1 [''ceo''])
   \<and> selected_count (run_extraction ''ceo@x.com bob@y.org Bob@Y.org alice@x.com'' 1 [''ceo'']) = 2
   \<and> unique_total (run_extraction ''ceo@x.com bob@y.org Bob@Y.org alice@x.com'' 1 [''ceo'']) = 3"
proof -
  let ?r = "run_extraction ''ceo@x.com bob@y.org Bob@Y.org alice@x.com'' 1 [''ceo'']"
  have h: "(0::int) \<le> 1" by simp
  have a: "selected_count ?r = 2" by code_simp
  have b: "unique_total ?r = 3" by code_simp
  show ?thesis
    using h selected_count_min [OF h, where d = "''x.com''"
        and raw_text = "''ceo@x.com bob@y.org Bob@Y.org alice@x.com''" and kws = "[''ceo'']"] a b
    by blast
qed

section \<open>A cap outside the configured range\<close>

lemma top_selection_all:
  "0 \<le> cap \<Longrightarrow> length es \<le> nat cap \<Longrightarrow>
   top_selection cap kws es = sorted_priority kws es @ sorted_others kws es"
proof -
  assume "0 \<le> cap" and "length es \<le> nat cap"
  then have "length (sorted_priority kws es @ sorted_others kws es) \<le> nat cap"
    by (simp only: length_candidates)
  then show ?thesis
    using \<open>0 \<le> cap\<close> by (simp only: top_selection_def slice_to_nonneg take_all)
qed

lemma select_all_cong:
  assumes "\<And>d. d \<in> set (domain_order g) \<Longrightarrow>
      top_selection c kws (get_group (domain_map g) d) = top_selection c' kws (get_group (domain_map g) d)"
  shows "select_all c kws g = select_all c' kws g"
proof -
  have "domain_rows c kws (get_group (domain_map g) d) d = domain_rows c' kws (get_group (domain_map g) d) d"
    if "d \<in> set (domain_order g)" for d
    using assms [OF that] by (simp add: domain_rows_def)
  moreover have "domain_skips c kws (get_group (domain_map g) d) = domain_skips c' kws (get_group (domain_map g) d)"
    if "d \<in> set (domain_order g)" for d
    using assms [OF that] by (simp add: domain_skips_def)
  ultimately show ?thesis
    by (simp add: select_all_def select_domain_foldl cong: map_cong)
qed

text \<open>
  Claim C9 as it is stated fails: with the cap -1, below the configured range, the run
  is not rejected (the page shows its result) and the cap is not moved to the nearest cap
  of the range, which is 1. Of three addresses of a domain the first two are selected,
  where the cap 1 selects the first only.
\<close>

theorem negative_cap_counterexample:
  "nearest_cap (- 1) = 1
   \<and> on_run_extraction ''a@x.com b@x.com c@x.com'' (- 1) [] =
       Results (run_extraction ''a@x.com b@x.com c@x.com'' (- 1) [])
   \<and> selected (run_extraction ''a@x.com b@x.com c@x.com'' (- 1) []) =
       [\<lparr>Domain = ''x.com'', Email = ''a@x.com'', Type = general_label\<rparr>,
        \<lparr>Domain = ''x.com'', Email = ''b@x.com'', Type = general_label\<rparr>]
   \<and> skipped (run_extraction ''a@x.com b@x.com c@x.com'' (- 1) []) = [''c@x.com'']
   \<and> selected (run_extraction ''a@x.com b@x.com c@x.com'' (nearest_cap (- 1)) []) =
       [\<lparr>Domain = ''x.com'', Email = ''a@x.com'', Type = general_label\<rparr>]
   \<and> skipped (run_extraction ''a@x.com b@x.com c@x.com'' (nearest_cap (- 1)) []) =
       [''b@x.com'', ''c@x.com'']
   \<and> selected (run_extraction ''a@x.com b@x.com c@x.com'' (- 1) [])
       \<noteq> selected (run_extraction ''a@x.com b@x.com c@x.com'' (nearest_cap (- 1)) [])"
proof -
  have a: "nearest_cap (- 1) = 1" by (simp add: nearest_cap_def)
  have b: "selected (run_extraction ''a@x.com b@x.com c@x.com'' (- 1) []) =
       [\<lparr>Domain = ''x.com'', Email = ''a@x.com'', Type = general_label\<rparr>,
        \<lparr>Domain = ''x.com'', Email = ''b@x.com'', Type = general_label\<rparr>]"
    by code_simp
  have c: "skipped (run_extraction ''a@x.com b@x.com c@x.com'' (- 1) []) = [''c@x.com'']"
    by code_simp
  have d: "selected (run_extraction ''a@x.com b@x.com c@x.com'' (nearest_cap (- 1)) []) =
       [\<lparr>Domain = ''x.com'', Email = ''a@x.com'', Type = general_label\<rparr>]"
    by code_simp
  have e: "skipped (run_extraction ''a@x.com b@x.com c@x.com'' (nearest_cap (- 1)) []) =
       [''b@x.com'', ''c@x.com'']"
    by code_simp
  have f: "selected (run_extraction ''a@x.com b@x.com c@x.com'' (- 1) [])
       \<noteq> selected (run_extraction ''a@x.com b@x.com c@x.com'' (nearest_cap (- 1)) [])"
    by (simp only: b d) simp
  have g: "on_run_extraction ''a@x.com b@x.com c@x.com'' (- 1) [] =
       Results (run_extraction ''a@x.com b@x.com c@x.com'' (- 1) [])"
    by (simp add: on_run_extraction_def Let_def b)
  show ?thesis using a b c d e f g by blast
qed

text \<open>
  Claim C9, amended. A cap outside the range from 1 to 200 is neither clamped nor
  rejected: the run completes and applies the cap as it is. With the cap 0 a domain
  selects nothing and skips all its addresses; with a negative cap \<open>-k\<close> it selects
  its priority-then-others order without the last \<open>k\<close> entries; with a cap above 200
  it selects as many entries as the smaller of the cap and the size of its group, and
  the whole result is the result for the cap 200 when no domain has more than 200
  addresses.
\<close>

theorem out_of_range_cap_applied:
  "(cap = 0 \<longrightarrow>
      selected_for d (run_extraction raw_text cap kws) = []
      \<and> skipped_for d (run_extraction raw_text cap kws) = group_of d (run_extraction raw_text cap kws))
   \<and> (cap < 0 \<longrightarrow>
      selected_for d (run_extraction raw_text cap kws) =
        take (length (group_of d (run_extraction raw_text cap kws)) - nat (- cap))
          (sorted_priority kws (group_of d (run_extraction raw_text cap kws))
             @ sorted_others kws (group_of d (run_extraction raw_text cap kws))))
   \<and> (200 < cap \<longrightarrow>
      length (selected_for d (run_extraction raw_text cap kws)) =
        min (nat cap) (length (group_of d (run_extraction raw_text cap kws))))
   \<and> (200 < cap \<and> (\<forall>d'. length (group_of d' (run_extraction raw_text cap kws)) \<le> 200) \<longrightarrow>
      run_extraction raw_text cap kws = run_extraction raw_text 200 kws)"
proof -
  let ?r = "process (findall raw_text) cap kws"
  let ?es = "group_of d ?r"
  have zero: "selected_for d ?r = [] \<and> skipped_for d ?r = ?es" if "cap = 0"
    using that
    by (simp add: selected_for_process skipped_for_process domain_skips_def
        top_selection_def slice_to_def)
  have neg: "selected_for d ?r =
        take (length ?es - nat (- cap)) (sorted_priority kws ?es @ sorted_others kws ?es)"
    if "cap < 0"
  proof -
    have "selected_for d ?r =
        take (length (sorted_priority kws ?es @ sorted_others kws ?es) - nat (- cap))
          (sorted_priority kws ?es @ sorted_others kws ?es)"
      using that by (simp only: selected_for_process top_selection_def slice_to_def) simp
    then show ?thesis by (simp only: length_candidates)
  qed
  have big: "length (selected_for d ?r) = min (nat cap) (length ?es)" if "200 < cap"
    using that by (simp add: selected_for_process length_top_selection)
  have same: "?r = process (findall raw_text) 200 kws"
    if "200 < cap" and all: "\<forall>d'. length (group_of d' ?r) \<le> 200"
  proof -
    let ?g = "group_emails (dedup (findall raw_text))"
    have "select_all cap kws ?g = select_all 200 kws ?g"
    proof (rule select_all_cong)
      fix d'
      have len: "length (get_group (domain_map ?g) d') \<le> 200"
        using all by (simp add: group_of_def grouped_process)
      have "top_selection cap kws (get_group (domain_map ?g) d') =
          sorted_priority kws (get_group (domain_map ?g) d') @ sorted_others kws (get_group (domain_map ?g) d')"
        using that(1) len by (intro top_selection_all) simp_all
      moreover have "top_selection 200 kws (get_group (domain_map ?g) d') =
          sorted_priority kws (get_group (domain_map ?g) d') @ sorted_others kws (get_group (domain_map ?g) d')"
        using len by (intro top_selection_all) simp_all
      ultimately show "top_selection cap kws (get_group (domain_map ?g) d') =
          top_selection 200 kws (get_group (domain_map ?g) d')"
        by simp
    qed
    then show ?thesis by (simp add: process_def Let_def)
  qed
  show ?thesis
    unfolding run_extraction_def using zero neg big same by blast
qed

theorem out_of_range_cap_applied_example:
  "selected_for ''x.com'' (run_extraction ''a@x.com b@x.com c@x.com'' 0 []) = []
   \<and> skipped_for ''x.com'' (run_extraction ''a@x.com b@x.com c@x.com'' 0 [])
       = [''a@x.com'', ''b@x.com'', ''c@x.com'']
   \<and> selected_for ''x.com'' (run_extraction ''a@x.com b@x.com c@x.com'' (- 1) [])
       = [''a@x.com'', ''b@x.com'']
   \<and> length (selected_for ''x.com'' (run_extraction ''a@x.com b@x.com c@x.com'' 201 [])) = 3
   \<and> run_extraction ''a@x.com b@x.com c@x.com'' 201 [] = run_extraction ''a@x.com b@x.com c@x.com'' 200 []"
proof -
  let ?t = "''a@x.com b@x.com c@x.com''"
  have g: "group_of ''x.com'' (run_extraction ?t cap []) = [''a@x.com'', ''b@x.com'', ''c@x.com'']" for cap
  proof -
    have "filter (\<lambda>e. domain_of e = Inr ''x.com'') (dedup (findall ?t)) = [''a@x.com'', ''b@x.com'', ''c@x.com'']"
      by code_simp
    then show ?thesis by (simp only: run_extraction_def group_of_process)
  qed
  have c: "sorted_priority [] [''a@x.com'', ''b@x.com'', ''c@x.com'']
             @ sorted_others [] [''a@x.com'', ''b@x.com'', ''c@x.com'']
           = [''a@x.com'', ''b@x.com'', ''c@x.com'']"
    by code_simp
  have zero: "selected_for ''x.com'' (run_extraction ?t 0 []) = []
      \<and> skipped_for ''x.com'' (run_extraction ?t 0 []) = group_of ''x.com'' (run_extraction ?t 0 [])"
    using out_of_range_cap_applied [where cap = 0 and d = "''x.com''" and raw_text = ?t and kws = "[]"]
    by blast
  have "(- 1::int) < 0" by simp
  then have "selected_for ''x.com'' (run_extraction ?t (- 1) []) =
        take (length (group_of ''x.com'' (run_extraction ?t (- 1) [])) - nat (- (- 1)))
          (sorted_priority [] (group_of ''x.com'' (run_extraction ?t (- 1) []))
             @ sorted_others [] (group_of ''x.com'' (run_extraction ?t (- 1) [])))"
    using out_of_range_cap_applied [where cap = "- 1" and d = "''x.com''" and raw_text = ?t and kws = "[]"]
    by blast
  then have neg: "selected_for ''x.com'' (run_extraction ?t (- 1) []) = [''a@x.com'', ''b@x.com'']"
    by (simp only: g c) simp
  have big: "(200::int) < 201" by simp
  have all: "\<forall>d'. length (group_of d' (run_extraction ?t 201 [])) \<le> 200"
  proof
    fix d'
    have u: "dedup (findall ?t) = [''a@x.com'', ''b@x.com'', ''c@x.com'']"
      by code_simp
    have "length (filter (\<lambda>e. domain_of e = Inr d') (dedup (findall ?t))) \<le> length (dedup (findall ?t))"
      by (rule length_filter_le)
    also have "\<dots> = 3" by (simp only: u) simp
    finally have "length (filter (\<lambda>e. domain_of e = Inr d') (dedup (findall ?t))) \<le> 200"
      by simp
    then show "length (group_of d' (run_extraction ?t 201 [])) \<le> 200"
      by (simp only: run_extraction_def group_of_process)
  qed
  have len: "length (selected_for ''x.com'' (run_extraction ?t 201 [])) =
        min (nat 201) (length (group_of ''x.com'' (run_extraction ?t 201 [])))"
    using big out_of_range_cap_applied [where cap = 201 and d = "''x.com''" and raw_text = ?t and kws = "[]"]
    by blast
  have same: "run_extraction ?t 201 [] = run_extraction ?t 200 []"
    using big all out_of_range_cap_applied [where cap = 201 and d = "''x.com''" and raw_text = ?t and kws = "[]"]
    by blast
  have len3: "length (selected_for ''x.com'' (run_extraction ?t 201 [])) = 3"
    by (simp only: len g) simp
  show ?thesis
    using zero neg len3 same by (simp only: g)
qed

end
